theory Spec2Isabelle
  imports Main "HOL-Library.Sublist" "HOL-Library.Multiset" "HOL-Library.Word"
begin

section \<open>Text and literal substitution\<close>

text \<open>
  A Python \<open>str\<close> is a sequence of Unicode code points. A code point is modelled as a
  natural number and a document as a list of them; \<open>lit\<close> reads an ASCII literal of the
  script as such a list.
\<close>

type_synonym codepoint = nat
type_synonym str = "codepoint list"

definition lit :: "string \<Rightarrow> str" where
  "lit cs = map of_char cs"

text \<open>
  \<open>s.replace(old, new)\<close> scans \<open>s\<close> from the left. Where \<open>old\<close> starts at the current
  position it emits \<open>new\<close> and continues behind the occurrence, otherwise it copies one
  code point and moves on. The scan is \<open>replace_scan\<close>; behind an occurrence that starts
  with \<open>c\<close> there remain \<open>length old - 1\<close> code points of it to skip. An empty \<open>old\<close>
  matches before every code point and at the end, which \<open>str_replace\<close> handles first.
\<close>

fun replace_scan :: "'a list \<Rightarrow> 'a list \<Rightarrow> 'a list \<Rightarrow> 'a list" where
  "replace_scan old new [] = []"
| "replace_scan old new (c # cs) =
     (if prefix old (c # cs)
      then new @ replace_scan old new (drop (length old - 1) cs)
      else c # replace_scan old new cs)"

definition str_replace :: "'a list \<Rightarrow> 'a list \<Rightarrow> 'a list \<Rightarrow> 'a list" where
  "str_replace old new s =
     (if old = [] then new @ concat (map (\<lambda>c. c # new) s) else replace_scan old new s)"

subsection \<open>The literals of the script\<close>

definition nbsp :: str where
  "nbsp = [0xA0]"

definition space :: str where
  "space = [0x20]"

definition obervations :: str where
  "obervations = lit ''obervations''"

definition observations :: str where
  "observations = lit ''observations''"

definition the_code_bellow :: str where
  "the_code_bellow = lit ''The code bellow''"

definition the_code_below :: str where
  "the_code_below = lit ''The code below''"

definition strenght_html :: str where
  "strenght_html = lit ''strenght.html''"

definition strength_html :: str where
  "strength_html = lit ''strength.html''"

subsection \<open>The four assignments to \<open>content\<close>\<close>

definition fix_content :: "str \<Rightarrow> str" where
  "fix_content content0 =
     (let content1 = str_replace nbsp space content0;
          content2 = str_replace obervations observations content1;
          content3 = str_replace the_code_bellow the_code_below content2;
          content4 = str_replace strenght_html strength_html content3
      in content4)"

section \<open>The file, the codec and the run of the script\<close>

text \<open>
  The script opens one fixed path in text mode with \<open>encoding="utf-8"\<close>, reads it whole,
  rewrites \<open>content\<close>, opens the same path for writing, writes and prints. The world it
  runs in is the content \<open>strength_qmd\<close> of the file at that path (\<open>None\<close> when the
  path does not exist), the permissions on it, the number of bytes the device still takes
  (\<open>None\<close> for no limit) and what has been written to standard output so far.
\<close>

type_synonym byte = "8 word"

datatype error =
    FileNotFoundError
  | PermissionError
  | UnicodeDecodeError
  | UnicodeEncodeError
  | OSError

record world =
  strength_qmd :: "byte list option"
  readable :: bool
  writable :: bool
  capacity :: "nat option"
  stdout :: string

subsection \<open>UTF-8, strict\<close>

definition cont :: "byte \<Rightarrow> bool" where
  "cont b = (0x80 \<le> b \<and> b \<le> 0xBF)"

definition second :: "byte \<Rightarrow> byte \<Rightarrow> bool" where
  "second b0 b1 =
     ((if b0 = 0xE0 then 0xA0 else if b0 = 0xF0 then 0x90 else 0x80) \<le> b1 \<and>
      b1 \<le> (if b0 = 0xED then 0x9F else if b0 = 0xF4 then 0x8F else 0xBF))"

definition bits6 :: "byte \<Rightarrow> nat" where
  "bits6 b = unat b mod 64"

fun utf8_decode :: "byte list \<Rightarrow> str option" where
  "utf8_decode [] = Some []"
| "utf8_decode (b0 # bs) =
     (if b0 < 0x80 then map_option ((#) (unat b0)) (utf8_decode bs)
      else if 0xC2 \<le> b0 \<and> b0 \<le> 0xDF then
        (case bs of
           b1 # r \<Rightarrow>
             if cont b1
             then map_option ((#) (unat b0 mod 32 * 64 + bits6 b1)) (utf8_decode r)
             else None
         | _ \<Rightarrow> None)
      else if 0xE0 \<le> b0 \<and> b0 \<le> 0xEF then
        (case bs of
           b1 # b2 # r \<Rightarrow>
             if second b0 b1 \<and> cont b2
             then map_option ((#) (unat b0 mod 16 * 4096 + bits6 b1 * 64 + bits6 b2))
                    (utf8_decode r)
             else None
         | _ \<Rightarrow> None)
      else if 0xF0 \<le> b0 \<and> b0 \<le> 0xF4 then
        (case bs of
           b1 # b2 # b3 # r \<Rightarrow>
             if second b0 b1 \<and> cont b2 \<and> cont b3
             then map_option
                    ((#) (unat b0 mod 8 * 262144 + bits6 b1 * 4096 + bits6 b2 * 64 + bits6 b3))
                    (utf8_decode r)
             else None
         | _ \<Rightarrow> None)
      else None)"

definition encode_codepoint :: "codepoint \<Rightarrow> byte list option" where
  "encode_codepoint c =
     (if c < 0x80 then Some [of_nat c]
      else if c < 0x800 then Some [of_nat (0xC0 + c div 64), of_nat (0x80 + c mod 64)]
      else if c < 0x10000 then
        (if 0xD800 \<le> c \<and> c \<le> 0xDFFF then None
         else Some [of_nat (0xE0 + c div 4096), of_nat (0x80 + c div 64 mod 64),
                    of_nat (0x80 + c mod 64)])
      else if c < 0x110000 then
        Some [of_nat (0xF0 + c div 262144), of_nat (0x80 + c div 4096 mod 64),
              of_nat (0x80 + c div 64 mod 64), of_nat (0x80 + c mod 64)]
      else None)"

fun utf8_encode :: "str \<Rightarrow> byte list option" where
  "utf8_encode [] = Some []"
| "utf8_encode (c # cs) =
     (case encode_codepoint c of
        None \<Rightarrow> None
      | Some bs \<Rightarrow> map_option ((@) bs) (utf8_encode cs))"

subsection \<open>Text mode\<close>

text \<open>
  Reading in text mode with the default \<open>newline=None\<close> turns each of \<open>\\r\\n\<close> and
  \<open>\\r\<close> into \<open>\\n\<close>; writing on the POSIX path of the script leaves \<open>\\n\<close> as it is.
\<close>

fun universal_newlines :: "str \<Rightarrow> str" where
  "universal_newlines [] = []"
| "universal_newlines [c] = [if c = 0x0D then 0x0A else c]"
| "universal_newlines (c # d # ds) =
     (if c = 0x0D \<and> d = 0x0A then 0x0A # universal_newlines ds
      else if c = 0x0D then 0x0A # universal_newlines (d # ds)
      else c # universal_newlines (d # ds))"

definition open_read :: "world \<Rightarrow> error + byte list" where
  "open_read w =
     (case strength_qmd w of
        None \<Rightarrow> Inl FileNotFoundError
      | Some bs \<Rightarrow> if readable w then Inr bs else Inl PermissionError)"

definition read_text :: "byte list \<Rightarrow> error + str" where
  "read_text bs =
     (case utf8_decode bs of
        None \<Rightarrow> Inl UnicodeDecodeError
      | Some t \<Rightarrow> Inr (universal_newlines t))"

text \<open>Opening with mode \<open>"w"\<close> creates the file or truncates it.\<close>

definition open_write :: "world \<Rightarrow> error + world" where
  "open_write w =
     (if strength_qmd w \<noteq> None \<and> \<not> writable w then Inl PermissionError
      else Inr (w\<lparr>strength_qmd := Some []\<rparr>))"

text \<open>
  \<open>f.write(content)\<close> followed by the close of the \<open>with\<close> block: the encoded bytes reach
  the file, or the first \<open>capacity\<close> of them do and the write raises.
\<close>

definition write_text :: "str \<Rightarrow> world \<Rightarrow> error option \<times> world" where
  "write_text content w =
     (case utf8_encode content of
        None \<Rightarrow> (Some UnicodeEncodeError, w)
      | Some bs \<Rightarrow>
          (case capacity w of
             None \<Rightarrow> (None, w\<lparr>strength_qmd := Some bs\<rparr>)
           | Some k \<Rightarrow>
               if k < length bs then (Some OSError, w\<lparr>strength_qmd := Some (take k bs)\<rparr>)
               else (None, w\<lparr>strength_qmd := Some bs\<rparr>)))"

definition newline :: char where
  "newline = CHR 0x0A"

definition print :: "string \<Rightarrow> world \<Rightarrow> world" where
  "print line w = w\<lparr>stdout := stdout w @ line @ [newline]\<rparr>"

text \<open>
  The script from top to bottom. An exception that nothing catches ends the run with the
  world as it is at that point; \<open>None\<close> is the run that reaches the end.
\<close>

definition run :: "world \<Rightarrow> error option \<times> world" where
  "run w =
     (case open_read w of
        Inl e \<Rightarrow> (Some e, w)
      | Inr bs \<Rightarrow>
          (case read_text bs of
             Inl e \<Rightarrow> (Some e, w)
           | Inr content0 \<Rightarrow>
               (let content = fix_content content0 in
                case open_write w of
                  Inl e \<Rightarrow> (Some e, w)
                | Inr w1 \<Rightarrow>
                    (case write_text content w1 of
                       (Some e, w2) \<Rightarrow> (Some e, w2)
                     | (None, w2) \<Rightarrow> (None, print ''File updated successfully.'' w2)))))"

definition exit_status :: "error option \<Rightarrow> nat" where
  "exit_status r = (case r of None \<Rightarrow> 0 | Some e \<Rightarrow> 1)"

section \<open>What the specification says, in its own terms\<close>

text \<open>
  A literal substitution as the specification words it: every non-overlapping occurrence
  of the search literal, found scanning the text from its start, is replaced. Either the
  literal does not occur and the text stays, or the text is \<open>u @ old @ r\<close> where no
  occurrence starts inside \<open>u\<close>, and the result is \<open>u\<close>, the replacement, and the result
  for the rest \<open>r\<close> behind that occurrence.
\<close>

inductive replaces_all :: "'a list \<Rightarrow> 'a list \<Rightarrow> 'a list \<Rightarrow> 'a list \<Rightarrow> bool"
  for old new :: "'a list" where
  absent: "\<not> sublist old s \<Longrightarrow> replaces_all old new s s"
| leftmost: "\<not> sublist old (u @ butlast old) \<Longrightarrow> replaces_all old new r t \<Longrightarrow>
     replaces_all old new (u @ old @ r) (u @ new @ t)"

text \<open>
  The rules by their number in the specification, and the rules applied in a given order:
  \<open>apply_order [1, 2, 3, 4]\<close> is the order of the script.
\<close>

definition apply_rule :: "nat \<Rightarrow> str \<Rightarrow> str" where
  "apply_rule k s =
     (if k = 1 then str_replace nbsp space s
      else if k = 2 then str_replace obervations observations s
      else if k = 3 then str_replace the_code_bellow the_code_below s
      else if k = 4 then str_replace strenght_html strength_html s
      else s)"

definition apply_order :: "nat list \<Rightarrow> str \<Rightarrow> str" where
  "apply_order ks s = foldl (\<lambda>t k. apply_rule k t) s ks"

text \<open>\<open>precedes a b ks\<close>: the first \<open>a\<close> in \<open>ks\<close> comes before some \<open>b\<close>.\<close>

definition precedes :: "'a \<Rightarrow> 'a \<Rightarrow> 'a list \<Rightarrow> bool" where
  "precedes a b ks = (b \<in> set (dropWhile (\<lambda>k. k \<noteq> a) ks))"

subsection \<open>Side conditions on a pair of literals\<close>

text \<open>
  Three checks on literals, each decided by running through the suffixes of one of them.
  \<open>skips w old\<close>: no occurrence of \<open>old\<close> can start inside \<open>w\<close>, whatever follows.
  \<open>reflects p old new\<close>: a suffix of \<open>p\<close> that the output of the replacement starts with
  was at the start of the input already. \<open>keeps y old new\<close>: a suffix of \<open>y\<close> at the
  start of the input is still at the start of the output.
\<close>

definition skips :: "'a list \<Rightarrow> 'a list \<Rightarrow> bool" where
  "skips w old = list_all (\<lambda>u. u = [] \<or> (\<not> prefix u old \<and> \<not> prefix old u)) (suffixes w)"

definition reflects :: "'a list \<Rightarrow> 'a list \<Rightarrow> 'a list \<Rightarrow> bool" where
  "reflects p old new =
     list_all (\<lambda>y. y = [] \<or> (\<not> prefix new y \<and> (\<not> prefix y new \<or> prefix y old)))
       (suffixes p)"

definition keeps :: "'a list \<Rightarrow> 'a list \<Rightarrow> 'a list \<Rightarrow> bool" where
  "keeps y old new =
     list_all (\<lambda>u. u = [] \<or> ((\<not> prefix u old \<or> prefix u new) \<and> (\<not> prefix old u \<or> u = old)))
       (suffixes y)"

text \<open>
  \<open>creates_none p old new\<close>: replacing \<open>old\<close> by \<open>new\<close> cannot complete an occurrence of
  \<open>p\<close>: \<open>p\<close> is not inside \<open>new\<close>, does not begin with the end of \<open>new\<close>, and ends with
  the beginning of \<open>new\<close> only where it ends with the beginning of \<open>old\<close> as well.
\<close>

definition creates_none :: "'a list \<Rightarrow> 'a list \<Rightarrow> 'a list \<Rightarrow> bool" where
  "creates_none p old new =
     (\<not> sublist p new \<and>
      list_all (\<lambda>x. x = [] \<or> x = p \<or> \<not> prefix x p) (suffixes new) \<and>
      reflects p old new)"

section \<open>The scan\<close>

lemma replace_scan_hit:
  "old \<noteq> [] \<Longrightarrow> prefix old s \<Longrightarrow>
   replace_scan old new s = new @ replace_scan old new (drop (length old) s)"
  by (cases s; cases old) auto

lemma replace_scan_skip:
  "\<not> prefix old (c # cs) \<Longrightarrow> replace_scan old new (c # cs) = c # replace_scan old new cs"
  by simp

lemma replace_scan_cases [case_names Nil hit skip]:
  assumes "s = [] \<Longrightarrow> P"
    and "\<And>r. s = old @ r \<Longrightarrow> P"
    and "\<And>c cs. s = c # cs \<Longrightarrow> \<not> prefix old s \<Longrightarrow> P"
  shows P
  using assms by (cases s) (auto simp: prefix_def)

lemma replace_scan_induct [consumes 1, case_names Nil hit skip]:
  assumes ne: "old \<noteq> []"
    and nil: "P []"
    and hit: "\<And>r. P r \<Longrightarrow> P (old @ r)"
    and skip: "\<And>c cs. \<not> prefix old (c # cs) \<Longrightarrow> P cs \<Longrightarrow> P (c # cs)"
  shows "P s"
proof (induction s rule: length_induct)
  case (1 s)
  show ?case
  proof (cases s rule: replace_scan_cases[where old = old])
    case Nil
    then show ?thesis using nil by simp
  next
    case (hit r)
    with ne have "length r < length s" by simp
    with 1 have "P r" by blast
    with hit show ?thesis using assms(3) by simp
  next
    case (skip c cs)
    with 1 have "P cs" by simp
    with skip show ?thesis using assms(4) by simp
  qed
qed

lemma replace_scan_append_old:
  "old \<noteq> [] \<Longrightarrow> replace_scan old new (old @ r) = new @ replace_scan old new r"
  by (simp add: replace_scan_hit)

lemma replace_scan_id: "\<not> sublist old s \<Longrightarrow> replace_scan old new s = s"
  by (induction s) (auto simp: sublist_Cons_right)

lemma prefix_replace_scan:
  assumes ne: "old \<noteq> []"
    and c: "reflects p old new"
  shows "suffix y p \<Longrightarrow> y \<noteq> [] \<Longrightarrow> prefix y (replace_scan old new s) \<Longrightarrow> prefix y s"
using ne proof (induction s arbitrary: y rule: replace_scan_induct)
  case Nil
  then show ?case by simp
next
  case (hit r)
  from c hit.prems(1,2) have a: "\<not> prefix new y" and b: "prefix y new \<Longrightarrow> prefix y old"
    by (auto simp: reflects_def list_all_iff)
  from hit.prems(3) ne have "prefix y (new @ replace_scan old new r)"
    by (simp add: replace_scan_append_old)
  then have "prefix y new \<or> prefix new y"
    by (auto simp: prefix_append)
  with a b have "prefix y old" by blast
  then show ?case by (auto simp: prefix_def)
next
  case (skip c cs)
  from skip.prems(2) obtain y' where y: "y = c # y'" 
    using skip.prems(3) skip.hyps by (cases y) (auto)
  show ?case
  proof (cases "y' = []")
    case True
    with y show ?thesis by simp
  next
    case False
    from skip.prems(1) y have "suffix y' p" by (auto dest: suffix_ConsD)
    moreover from skip.prems(3) y skip.hyps have "prefix y' (replace_scan old new cs)" by simp
    ultimately have "prefix y' cs" using False skip.IH by blast
    with y show ?thesis by simp
  qed
qed

lemma replace_scan_creates_none:
  assumes ne: "old \<noteq> []" and pne: "p \<noteq> []" and c: "creates_none p old new"
  shows "\<not> sublist p s \<Longrightarrow> \<not> sublist p (replace_scan old new s)"
using ne proof (induction s rule: replace_scan_induct)
  case Nil
  then show ?case by simp
next
  case (hit r)
  from hit.prems have nr: "\<not> sublist p r"
    by (auto simp: sublist_append)
  with hit.IH have ih: "\<not> sublist p (replace_scan old new r)" .
  show ?case
  proof
    assume "sublist p (replace_scan old new (old @ r))"
    with ne have "sublist p (new @ replace_scan old new r)"
      by (simp add: replace_scan_append_old)
    then consider "sublist p new" | "sublist p (replace_scan old new r)"
      | x y where "p = x @ y" "suffix x new" "prefix y (replace_scan old new r)"
      by (auto simp: sublist_append)
    then show False
    proof cases
      case 1
      with c show False by (simp add: creates_none_def)
    next
      case 2
      with ih show False by simp
    next
      case 3
      show False
      proof (cases "x = [] \<or> y = []")
        case True
        with 3 ih c show False by (auto simp: creates_none_def)
      next
        case False
        with 3 have "x \<noteq> []" "x \<noteq> p" "prefix x p" "suffix x new" by auto
        with c show False by (auto simp: creates_none_def list_all_iff)
      qed
    qed
  qed
next
  case (skip c' cs)
  from skip.prems have ncs: "\<not> sublist p cs" and np: "\<not> prefix p (c' # cs)"
    by (auto simp: sublist_Cons_right)
  with skip.IH have ih: "\<not> sublist p (replace_scan old new cs)" by simp
  show ?case
  proof
    assume "sublist p (replace_scan old new (c' # cs))"
    with skip.hyps ih have "prefix p (c' # replace_scan old new cs)"
      by (simp add: sublist_Cons_right)
    then have "prefix p (replace_scan old new (c' # cs))" using skip.hyps by simp
    moreover have "suffix p p" by simp
    ultimately have "prefix p (c' # cs)"
      using prefix_replace_scan[OF ne, of p new p "c' # cs"] c pne
      by (simp add: creates_none_def)
    with np show False by simp
  qed
qed

lemma replace_scan_removes_old:
  assumes ne: "old \<noteq> []" and c: "creates_none old old new"
  shows "\<not> sublist old (replace_scan old new s)"
using ne proof (induction s rule: replace_scan_induct)
  case Nil
  with ne show ?case by simp
next
  case (hit r)
  show ?case
  proof
    assume "sublist old (replace_scan old new (old @ r))"
    with ne have "sublist old (new @ replace_scan old new r)"
      by (simp add: replace_scan_append_old)
    then consider "sublist old new" | "sublist old (replace_scan old new r)"
      | x y where "old = x @ y" "suffix x new" "prefix y (replace_scan old new r)"
      by (auto simp: sublist_append)
    then show False
    proof cases
      case 1
      with c show False by (simp add: creates_none_def)
    next
      case 2
      with hit.IH show False by simp
    next
      case 3
      show False
      proof (cases "x = [] \<or> y = []")
        case True
        with 3 hit.IH c show False by (auto simp: creates_none_def)
      next
        case False
        with 3 have "x \<noteq> []" "x \<noteq> old" "prefix x old" "suffix x new" by auto
        with c show False by (auto simp: creates_none_def list_all_iff)
      qed
    qed
  qed
next
  case (skip c' cs)
  show ?case
  proof
    assume "sublist old (replace_scan old new (c' # cs))"
    with skip have "prefix old (c' # replace_scan old new cs)"
      by (simp add: sublist_Cons_right)
    then have "prefix old (replace_scan old new (c' # cs))" using skip.hyps by simp
    moreover have "suffix old old" by simp
    ultimately have "prefix old (c' # cs)"
      using prefix_replace_scan[OF ne, of old new old "c' # cs"] c ne
      by (simp add: creates_none_def)
    with skip.hyps show False by simp
  qed
qed


lemma replace_scan_over:
  "skips w old \<Longrightarrow> replace_scan old new (w @ y) = w @ replace_scan old new y"
proof (induction w)
  case Nil
  then show ?case by simp
next
  case (Cons a w)
  from Cons.prems have "skips w old" and np: "\<not> prefix (a # w) old" "\<not> prefix old (a # w)"
    by (auto simp: skips_def)
  have "\<not> prefix old (a # w @ y)"
  proof
    assume "prefix old (a # w @ y)"
    then have "prefix old (a # w) \<or> prefix (a # w) old"
      using prefix_append[of old "a # w" y] by auto
    with np show False by blast
  qed
  with Cons.IH[OF \<open>skips w old\<close>] show ?case by simp
qed

lemma replace_scan_keeps:
  assumes ne: "old \<noteq> []" and k: "keeps y old new"
  shows "prefix y s \<Longrightarrow> prefix y (replace_scan old new s)"
using k proof (induction y arbitrary: s)
  case Nil
  then show ?case by simp
next
  case (Cons a y)
  from Cons.prems(1) obtain r where s: "s = a # y @ r" by (auto simp: prefix_def)
  from Cons.prems(2) have ky: "keeps y old new"
    and k1: "prefix (a # y) old \<Longrightarrow> prefix (a # y) new"
    and k2: "prefix old (a # y) \<Longrightarrow> a # y = old"
    by (auto simp: keeps_def)
  show ?case
  proof (cases "prefix old s")
    case True
    with s have "prefix old (a # y) \<or> prefix (a # y) old"
      using prefix_append[of old "a # y" r] by auto
    with k2 have "prefix (a # y) old" by auto
    with k1 have "prefix (a # y) new" by simp
    moreover from True ne obtain r' where "replace_scan old new s = new @ r'"
      by (auto simp: replace_scan_hit)
    ultimately show ?thesis by (auto simp: prefix_def)
  next
    case False
    with s have "replace_scan old new s = a # replace_scan old new (y @ r)" by simp
    moreover have "prefix y (replace_scan old new (y @ r))"
      using Cons.IH[of "y @ r"] ky by simp
    ultimately show ?thesis by simp
  qed
qed

lemma not_sublist_butlast: "old \<noteq> [] \<Longrightarrow> \<not> sublist old (butlast old)"
  using sublist_length_le[of old "butlast old"] by (cases old) auto

lemma replaces_all_Cons:
  assumes "replaces_all old new cs t" and "\<not> prefix old (c # cs)"
  shows "replaces_all old new (c # cs) (c # t)"
using assms proof (cases rule: replaces_all.cases)
  case absent
  with assms(2) have "\<not> sublist old (c # cs)" by (simp add: sublist_Cons_right)
  with absent show ?thesis by (auto intro: replaces_all.absent)
next
  case (leftmost u r t')
  have "\<not> sublist old ((c # u) @ butlast old)"
  proof
    assume "sublist old ((c # u) @ butlast old)"
    with leftmost(3) have "prefix old (c # u @ butlast old)"
      by (simp add: sublist_Cons_right)
    then obtain z where z: "c # u @ butlast old = old @ z"
      by (auto simp: prefix_def)
    from leftmost(3) have "old \<noteq> []" by auto
    then have "c # u @ old @ r = (c # u @ butlast old) @ (last old # r)"
      by (metis append_butlast_last_id append_Cons append_Nil append_assoc)
    with z have "c # u @ old @ r = old @ z @ (last old # r)" by simp
    then have "prefix old (c # u @ old @ r)" by (metis prefixI)
    with assms(2) leftmost(1) show False by simp
  qed
  from replaces_all.leftmost[OF this leftmost(4)] leftmost(1,2) show ?thesis by simp
qed

lemma replaces_all_replace_scan:
  assumes "old \<noteq> []"
  shows "replaces_all old new s (replace_scan old new s)"
using assms proof (induction s rule: replace_scan_induct)
  case Nil
  from assms show ?case by (auto intro: replaces_all.absent)
next
  case (hit r)
  have "\<not> sublist old ([] @ butlast old)" using assms by (simp add: not_sublist_butlast)
  from replaces_all.leftmost[OF this hit.IH] assms show ?case
    by (simp add: replace_scan_append_old)
next
  case (skip c cs)
  then show ?case by (simp add: replaces_all_Cons)
qed

lemma replace_scan_leftmost:
  assumes "\<not> sublist old (u @ butlast old)"
  shows "replace_scan old new (u @ old @ r) = u @ new @ replace_scan old new r"
proof -
  from assms have ne: "old \<noteq> []" by auto
  have "replace_scan old new (u @ old @ r) = u @ replace_scan old new (old @ r)"
    using assms
  proof (induction u)
    case Nil
    then show ?case by simp
  next
    case (Cons c u)
    from Cons.prems have a: "\<not> sublist old (u @ butlast old)"
      and b: "\<not> prefix old (c # u @ butlast old)"
      by (auto simp: sublist_Cons_right)
    have "\<not> prefix old (c # u @ old @ r)"
    proof
      assume p: "prefix old (c # u @ old @ r)"
      have "c # u @ old @ r = (c # u @ butlast old) @ (last old # r)" using ne
        by (metis append_butlast_last_id append_Cons append_Nil append_assoc)
      with p have "prefix old ((c # u @ butlast old) @ (last old # r))" by simp
      moreover have "length old \<le> length (c # u @ butlast old)" by simp
      ultimately have "prefix old (c # u @ butlast old)"
        by (metis prefix_length_prefix prefix_order.refl prefixI prefix_append)
      with b show False by simp
    qed
    with Cons.IH[OF a] show ?case by simp
  qed
  with ne show ?thesis by (simp add: replace_scan_append_old)
qed

lemma replaces_all_unique:
  assumes "replaces_all old new s t" and "old \<noteq> []"
  shows "t = replace_scan old new s"
  using assms
  by (induction rule: replaces_all.induct) (simp_all add: replace_scan_id replace_scan_leftmost)

lemma replaces_all_iff:
  "old \<noteq> [] \<Longrightarrow> replaces_all old new s t \<longleftrightarrow> t = str_replace old new s"
  by (auto simp: str_replace_def replaces_all_replace_scan dest: replaces_all_unique)

subsection \<open>Two scans, one after the other\<close>

lemma prefix_map_iff:
  assumes "\<And>c a. a \<in> set old \<Longrightarrow> (f c = a) = (c = a)"
  shows "prefix old (map f s) \<longleftrightarrow> prefix old s"
  using assms
proof (induction old arbitrary: s)
  case Nil
  then show ?case by simp
next
  case (Cons a old)
  show ?case
  proof (cases s)
    case Nil
    then show ?thesis by simp
  next
    case (Cons c cs)
    have "prefix old (map f cs) \<longleftrightarrow> prefix old cs"
      using Cons.IH Cons.prems by simp
    moreover have "(f c = a) = (c = a)" using Cons.prems by simp
    ultimately show ?thesis using Cons by auto
  qed
qed

lemma replace_scan_map:
  assumes fx: "\<And>c a. a \<in> set old \<Longrightarrow> (f c = a) = (c = a)"
    and nw: "map f new = new" and ne: "old \<noteq> []"
  shows "replace_scan old new (map f s) = map f (replace_scan old new s)"
using ne proof (induction s rule: replace_scan_induct)
  case Nil
  then show ?case by simp
next
  case (hit r)
  have "map f old = old" using fx by (simp add: map_idI)
  with hit nw ne show ?case by (simp add: replace_scan_append_old)
next
  case (skip c cs)
  from skip.hyps have "\<not> prefix old (map f (c # cs))"
    using prefix_map_iff[of old f "c # cs"] fx by blast
  with skip show ?case by simp
qed

lemma replace_scan_single:
  "replace_scan [a] [b] s = map (\<lambda>c. if c = a then b else c) s"
  by (induction s) auto

lemma replace_scan_commute:
  fixes w1 w1' b1 w2 w2' b2 :: "'a list"
  assumes ne: "w1 \<noteq> []" "w2 \<noteq> []"
    and sb: "skips b1 (w1 @ b1)" "skips b2 (w2 @ b2)"
    and sw1: "skips w2 (w1 @ b1)" "skips w2' (w1 @ b1)"
    and sw2: "skips w1 (w2 @ b2)" "skips w1' (w2 @ b2)"
    and kp: "keeps b2 (w1 @ b1) (w1' @ b1)" "keeps b1 (w2 @ b2) (w2' @ b2)"
    and rf: "reflects (w1 @ b1) (w2 @ b2) (w2' @ b2)" "reflects (w2 @ b2) (w1 @ b1) (w1' @ b1)"
  shows "replace_scan (w1 @ b1) (w1' @ b1) (replace_scan (w2 @ b2) (w2' @ b2) s)
       = replace_scan (w2 @ b2) (w2' @ b2) (replace_scan (w1 @ b1) (w1' @ b1) s)"
proof -
  define f where "f = replace_scan (w1 @ b1) (w1' @ b1)"
  define g where "g = replace_scan (w2 @ b2) (w2' @ b2)"
  from ne have o1: "w1 @ b1 \<noteq> []" and o2: "w2 @ b2 \<noteq> []" by simp_all
  have fstep: "f (w1 @ x) = w1' @ f x" if "prefix b1 x" for x
  proof -
    from that obtain r where x: "x = b1 @ r" by (auto simp: prefix_def)
    have "f (w1 @ x) = (w1' @ b1) @ f r"
      unfolding f_def x using replace_scan_append_old[OF o1, of "w1' @ b1" r] by simp
    moreover have "f x = b1 @ f r"
      unfolding f_def x by (rule replace_scan_over[OF sb(1)])
    ultimately show ?thesis by simp
  qed
  have gstep: "g (w2 @ x) = w2' @ g x" if "prefix b2 x" for x
  proof -
    from that obtain r where x: "x = b2 @ r" by (auto simp: prefix_def)
    have "g (w2 @ x) = (w2' @ b2) @ g r"
      unfolding g_def x using replace_scan_append_old[OF o2, of "w2' @ b2" r] by simp
    moreover have "g x = b2 @ g r"
      unfolding g_def x by (rule replace_scan_over[OF sb(2)])
    ultimately show ?thesis by simp
  qed
  have fover: "f (w2 @ y) = w2 @ f y" "f (w2' @ y) = w2' @ f y" for y
    unfolding f_def by (rule replace_scan_over[OF sw1(1)], rule replace_scan_over[OF sw1(2)])
  have gover: "g (w1 @ y) = w1 @ g y" "g (w1' @ y) = w1' @ g y" for y
    unfolding g_def by (rule replace_scan_over[OF sw2(1)], rule replace_scan_over[OF sw2(2)])
  have fkeeps: "prefix b2 (f x)" if "prefix b2 x" for x
    unfolding f_def using replace_scan_keeps[OF o1 kp(1) that] .
  have gkeeps: "prefix b1 (g x)" if "prefix b1 x" for x
    unfolding g_def using replace_scan_keeps[OF o2 kp(2) that] .
  have fhead: "prefix (w2 @ b2) x" if "prefix (w2 @ b2) (f x)" for x
    using prefix_replace_scan[OF o1 rf(2), where y = "w2 @ b2" and s = x] o2 that
    unfolding f_def by simp
  have ghead: "prefix (w1 @ b1) x" if "prefix (w1 @ b1) (g x)" for x
    using prefix_replace_scan[OF o2 rf(1), where y = "w1 @ b1" and s = x] o1 that
    unfolding g_def by simp
  have "f (g s) = g (f s)"
  proof (induction s rule: length_induct)
    case (1 s)
    consider (hit2) "prefix (w2 @ b2) s"
      | (hit1) "prefix (w1 @ b1) s"
      | (skip) "\<not> prefix (w2 @ b2) s" "\<not> prefix (w1 @ b1) s"
      by blast
    then show ?case
    proof cases
      case hit2
      then obtain r where s: "s = w2 @ b2 @ r" by (auto simp: prefix_def)
      have len: "length (b2 @ r) < length s" using s ne by simp
      have "f (g s) = w2' @ f (g (b2 @ r))"
        unfolding s using gstep[of "b2 @ r"] fover(2) by simp
      moreover have "g (f s) = w2' @ g (f (b2 @ r))"
        unfolding s using fover(1)[of "b2 @ r"] gstep[of "f (b2 @ r)"] fkeeps[of "b2 @ r"]
        by simp
      ultimately show ?thesis using 1 len by simp
    next
      case hit1
      then obtain r where s: "s = w1 @ b1 @ r" by (auto simp: prefix_def)
      have len: "length (b1 @ r) < length s" using s ne by simp
      have "g (f s) = w1' @ g (f (b1 @ r))"
        unfolding s using fstep[of "b1 @ r"] gover(2) by simp
      moreover have "f (g s) = w1' @ f (g (b1 @ r))"
        unfolding s using gover(1)[of "b1 @ r"] fstep[of "g (b1 @ r)"] gkeeps[of "b1 @ r"]
        by simp
      ultimately show ?thesis using 1 len by simp
    next
      case skip
      show ?thesis
      proof (cases s)
        case Nil
        then show ?thesis by (simp add: f_def g_def)
      next
        case (Cons c cs)
        from skip Cons have gs: "g s = c # g cs" and fs: "f s = c # f cs"
          by (simp_all add: f_def g_def)
        from skip(2) ghead[of s] have "\<not> prefix (w1 @ b1) (c # g cs)" using gs by auto
        then have a: "f (c # g cs) = c # f (g cs)" by (simp add: f_def)
        from skip(1) fhead[of s] have "\<not> prefix (w2 @ b2) (c # f cs)" using fs by auto
        then have b: "g (c # f cs) = c # g (f cs)" by (simp add: g_def)
        from 1 Cons have "f (g cs) = g (f cs)" by simp
        with a b gs fs show ?thesis by simp
      qed
    qed
  qed
  then show ?thesis by (simp add: f_def g_def)
qed

section \<open>The literals of the script do not interfere\<close>

lemmas literal_defs = lit_def nbsp_def space_def obervations_def observations_def
  the_code_bellow_def the_code_below_def strenght_html_def strength_html_def

lemma literals_nonempty:
  "nbsp \<noteq> []" "obervations \<noteq> []" "the_code_bellow \<noteq> []" "strenght_html \<noteq> []"
  by (simp_all add: literal_defs)

lemma str_replace_scan: "old \<noteq> [] \<Longrightarrow> str_replace old new s = replace_scan old new s"
  by (simp add: str_replace_def)

lemma str_replace_id: "\<not> sublist old s \<Longrightarrow> str_replace old new s = s"
  by (cases "old = []") (auto simp: str_replace_def replace_scan_id)

lemma str_replace_removes_old:
  "old \<noteq> [] \<Longrightarrow> creates_none old old new \<Longrightarrow> \<not> sublist old (str_replace old new s)"
  by (simp add: str_replace_scan replace_scan_removes_old)

lemma str_replace_creates_none:
  "old \<noteq> [] \<Longrightarrow> p \<noteq> [] \<Longrightarrow> creates_none p old new \<Longrightarrow> \<not> sublist p s \<Longrightarrow>
   \<not> sublist p (str_replace old new s)"
  by (simp add: str_replace_scan replace_scan_creates_none)

lemma sublist_single: "sublist [a] s \<longleftrightarrow> a \<in> set s"
  by (induction s) (auto simp: sublist_Cons_right)

lemma creates_none_literals:
  "creates_none nbsp nbsp space"
  "creates_none nbsp obervations observations"
  "creates_none nbsp the_code_bellow the_code_below"
  "creates_none nbsp strenght_html strength_html"
  "creates_none obervations obervations observations"
  "creates_none obervations the_code_bellow the_code_below"
  "creates_none obervations strenght_html strength_html"
  "creates_none the_code_bellow the_code_bellow the_code_below"
  "creates_none the_code_bellow strenght_html strength_html"
  "creates_none strenght_html strenght_html strength_html"
  by (simp_all add: creates_none_def reflects_def literal_defs sublist_code)

lemma fix_content_unfold:
  "fix_content s =
     str_replace strenght_html strength_html
       (str_replace the_code_bellow the_code_below
          (str_replace obervations observations (str_replace nbsp space s)))"
  by (simp add: fix_content_def)

lemma fix_content_no_nbsp: "\<not> sublist nbsp (fix_content s)"
  unfolding fix_content_unfold
  by (intro str_replace_creates_none str_replace_removes_old literals_nonempty
      creates_none_literals)

lemma fix_content_no_obervations: "\<not> sublist obervations (fix_content s)"
  unfolding fix_content_unfold
  by (intro str_replace_creates_none str_replace_removes_old literals_nonempty
      creates_none_literals)

lemma fix_content_no_bellow: "\<not> sublist the_code_bellow (fix_content s)"
  unfolding fix_content_unfold
  by (intro str_replace_creates_none str_replace_removes_old literals_nonempty
      creates_none_literals)

lemma fix_content_no_strenght: "\<not> sublist strenght_html (fix_content s)"
  unfolding fix_content_unfold
  by (intro str_replace_removes_old literals_nonempty creates_none_literals)

lemma fix_content_id:
  assumes "\<not> sublist nbsp s" "\<not> sublist obervations s" "\<not> sublist the_code_bellow s"
    "\<not> sublist strenght_html s"
  shows "fix_content s = s"
  using assms by (simp add: fix_content_unfold str_replace_id)

subsection \<open>Which substitutions commute\<close>

lemma nbsp_commutes:
  assumes "old \<noteq> []" "0xA0 \<notin> set old" "0x20 \<notin> set old" "0xA0 \<notin> set new"
  shows "str_replace old new (str_replace nbsp space s)
       = str_replace nbsp space (str_replace old new s)"
proof -
  let ?f = "\<lambda>c::nat. if c = 0xA0 then 0x20 else c"
  have m: "str_replace nbsp space t = map ?f t" for t
    by (simp add: str_replace_def nbsp_def space_def replace_scan_single)
  have "map ?f new = new" using assms(4) by (intro map_idI) auto
  moreover have "(?f c = a) = (c = a)" if "a \<in> set old" for c a
    using that assms(2,3) by auto
  ultimately have "replace_scan old new (map ?f s) = map ?f (replace_scan old new s)"
    using assms(1) by (intro replace_scan_map) auto
  with assms(1) show ?thesis by (simp add: m str_replace_scan)
qed

lemma commute_1_2:
  "str_replace obervations observations (str_replace nbsp space s)
   = str_replace nbsp space (str_replace obervations observations s)"
  by (rule nbsp_commutes) (simp_all add: literal_defs)

lemma commute_1_4:
  "str_replace strenght_html strength_html (str_replace nbsp space s)
   = str_replace nbsp space (str_replace strenght_html strength_html s)"
  by (rule nbsp_commutes) (simp_all add: literal_defs)

lemma commute_2_3:
  "str_replace the_code_bellow the_code_below (str_replace obervations observations s)
   = str_replace obervations observations (str_replace the_code_bellow the_code_below s)"
proof -
  have "replace_scan (the_code_bellow @ []) (the_code_below @ [])
          (replace_scan (obervations @ []) (observations @ []) s)
      = replace_scan (obervations @ []) (observations @ [])
          (replace_scan (the_code_bellow @ []) (the_code_below @ []) s)"
    by (rule replace_scan_commute)
       (simp_all add: skips_def keeps_def reflects_def literal_defs)
  then show ?thesis by (simp add: str_replace_scan literals_nonempty)
qed

lemma commute_3_4:
  "str_replace strenght_html strength_html (str_replace the_code_bellow the_code_below s)
   = str_replace the_code_bellow the_code_below (str_replace strenght_html strength_html s)"
proof -
  have "replace_scan (strenght_html @ []) (strength_html @ [])
          (replace_scan (the_code_bellow @ []) (the_code_below @ []) s)
      = replace_scan (the_code_bellow @ []) (the_code_below @ [])
          (replace_scan (strenght_html @ []) (strength_html @ []) s)"
    by (rule replace_scan_commute)
       (simp_all add: skips_def keeps_def reflects_def literal_defs)
  then show ?thesis by (simp add: str_replace_scan literals_nonempty)
qed

text \<open>
  "obervations" ends and "strenght.html" starts with the same letter, and so do their
  replacements: the two occurrences can share that letter, which both substitutions leave
  in place.
\<close>

lemma commute_2_4:
  "str_replace strenght_html strength_html (str_replace obervations observations s)
   = str_replace obervations observations (str_replace strenght_html strength_html s)"
proof -
  have o: "obervations = lit ''obervation'' @ lit ''s''"
    and n: "observations = lit ''observation'' @ lit ''s''"
    by (simp_all add: literal_defs)
  have "replace_scan (strenght_html @ []) (strength_html @ [])
          (replace_scan (lit ''obervation'' @ lit ''s'') (lit ''observation'' @ lit ''s'') s)
      = replace_scan (lit ''obervation'' @ lit ''s'') (lit ''observation'' @ lit ''s'')
          (replace_scan (strenght_html @ []) (strength_html @ []) s)"
    by (rule replace_scan_commute)
       (simp_all add: skips_def keeps_def reflects_def literal_defs)
  then show ?thesis
    by (simp add: str_replace_scan literals_nonempty flip: o n)
qed

subsection \<open>Orders of the rules\<close>

lemma apply_order_Cons: "apply_order (k # ks) s = apply_order ks (apply_rule k s)"
  by (simp add: apply_order_def)

lemma apply_order_append: "apply_order (xs @ ys) s = apply_order ys (apply_order xs s)"
  by (simp add: apply_order_def)

lemma apply_order_Nil: "apply_order [] s = s"
  by (simp add: apply_order_def)

lemma apply_order_move:
  assumes "\<And>j t. j \<in> set ys \<Longrightarrow> apply_rule j (apply_rule k t) = apply_rule k (apply_rule j t)"
  shows "apply_order (k # ys) s = apply_order (ys @ [k]) s"
  using assms
proof (induction ys arbitrary: s)
  case Nil
  then show ?case by simp
next
  case (Cons j ys)
  have "apply_order (k # j # ys) s = apply_order (k # ys) (apply_rule j s)"
    using Cons.prems[of j s] by (simp add: apply_order_Cons)
  also have "\<dots> = apply_order (ys @ [k]) (apply_rule j s)"
    using Cons.prems by (intro Cons.IH) simp
  finally show ?case by (simp add: apply_order_Cons)
qed

lemma rule_4_commutes:
  assumes "j \<in> {1, 2, 3}"
  shows "apply_rule j (apply_rule 4 t) = apply_rule 4 (apply_rule j t)"
  using assms commute_1_4[of t] commute_2_4[of t] commute_3_4[of t]
  by (auto simp: apply_rule_def)

lemma rule_2_commutes:
  assumes "j \<in> {1, 3}"
  shows "apply_rule j (apply_rule 2 t) = apply_rule 2 (apply_rule j t)"
  using assms commute_1_2[of t] commute_2_3[of t]
  by (auto simp: apply_rule_def)

lemma precedes_remove:
  assumes "precedes a b (xs @ k # ys)" "k \<noteq> a" "k \<noteq> b"
  shows "precedes a b (xs @ ys)"
proof (cases "a \<in> set xs")
  case True
  then have "\<exists>x\<in>set xs. \<not> x \<noteq> a" by simp
  then have "dropWhile (\<lambda>k. k \<noteq> a) (xs @ zs) = dropWhile (\<lambda>k. k \<noteq> a) xs @ zs" for zs
    by (intro dropWhile_append1) auto
  with assms show ?thesis by (auto simp: precedes_def)
next
  case False
  then have "dropWhile (\<lambda>k. k \<noteq> a) (xs @ zs) = dropWhile (\<lambda>k. k \<noteq> a) zs" for zs
    by (intro dropWhile_append2) auto
  with assms show ?thesis by (auto simp: precedes_def)
qed

lemma mset_remove:
  assumes "mset ks = add_mset k M"
  obtains xs ys where "ks = xs @ k # ys" "mset (xs @ ys) = M"
proof -
  from assms have "k \<in> set ks" by (metis set_mset_mset union_single_eq_member)
  then obtain xs ys where ks: "ks = xs @ k # ys" by (auto dest: split_list)
  with assms have "mset (xs @ ys) = M" by simp
  with ks show ?thesis by (rule that)
qed

lemma order_1_3:
  assumes "mset zs = mset [1, 3 :: nat]" "precedes 1 3 zs"
  shows "zs = [1, 3]"
proof -
  from assms(1) have "size (mset zs) = size (mset [1, 3 :: nat])" by simp
  then have "length zs = Suc (Suc 0)" by simp
  then obtain a b where zs: "zs = [a, b]" by (auto simp: length_Suc_conv)
  from assms(1) have "set zs = set [1, 3 :: nat]" by (rule mset_eq_setD)
  then have "a \<in> {1, 3}" "b \<in> {1, 3}" unfolding zs by auto
  moreover from assms(1) have "distinct zs = distinct [1, 3 :: nat]"
    by (rule mset_eq_imp_distinct_iff)
  then have "a \<noteq> b" unfolding zs by simp
  ultimately have "(a = 1 \<and> b = 3) \<or> (a = 3 \<and> b = 1)" by auto
  with assms(2) show ?thesis unfolding zs by (auto simp: precedes_def)
qed

section \<open>Steps of a run\<close>

lemma run_read_error:
  "open_read w = Inl e \<Longrightarrow> run w = (Some e, w)"
  by (simp add: run_def)

lemma run_decode_error:
  "open_read w = Inr bs \<Longrightarrow> read_text bs = Inl e \<Longrightarrow> run w = (Some e, w)"
  by (simp add: run_def)

lemma run_success_cases:
  assumes "run w = (None, w')"
  obtains bs content0 w1 w2 where
    "open_read w = Inr bs" "read_text bs = Inr content0" "open_write w = Inr w1"
    "write_text (fix_content content0) w1 = (None, w2)"
    "w' = print ''File updated successfully.'' w2"
  using assms
  by (auto simp: run_def Let_def split: sum.splits prod.splits option.splits)

lemma write_text_success:
  "write_text content w1 = (None, w2) \<Longrightarrow>
   \<exists>out. utf8_encode content = Some out \<and> w2 = w1\<lparr>strength_qmd := Some out\<rparr>"
  by (auto simp: write_text_def split: option.splits if_splits)

lemma open_write_success:
  "open_write w = Inr w1 \<Longrightarrow> w1 = w\<lparr>strength_qmd := Some []\<rparr>"
  by (auto simp: open_write_def split: if_splits)

section \<open>The transformation of the text\<close>

text \<open>
  C1. For every document the script applies exactly four literal substitutions, in this
  order and each on the result of the one before: U+00A0 by U+0020, "obervations" by
  "observations", "The code bellow" by "The code below", "strenght.html" by
  "strength.html"; each replaces every non-overlapping occurrence in the whole text. So
  \<open>t\<close> is the result for \<open>s\<close> exactly when \<open>t\<close> is reached from \<open>s\<close> through the four
  substitutions of the specification in a row.
\<close>

theorem fix_content_applies_four_substitutions:
  "fix_content s = t \<longleftrightarrow>
    (\<exists>t1 t2 t3. replaces_all nbsp space s t1 \<and>
       replaces_all obervations observations t1 t2 \<and>
       replaces_all the_code_bellow the_code_below t2 t3 \<and>
       replaces_all strenght_html strength_html t3 t)"
  by (auto simp: replaces_all_iff literals_nonempty fix_content_unfold)

theorem fix_content_applies_four_substitutions_witness:
  "\<exists>t1 t2 t3.
     replaces_all nbsp space (lit ''an obervations'') t1 \<and>
     replaces_all obervations observations t1 t2 \<and>
     replaces_all the_code_bellow the_code_below t2 t3 \<and>
     replaces_all strenght_html strength_html t3 (lit ''an observations'')"
  using fix_content_applies_four_substitutions
    [of "lit ''an obervations''" "lit ''an observations''"]
  by (simp add: fix_content_unfold str_replace_def literal_defs)

text \<open>
  C2. The text "a", U+00A0, "b obervations The code bellow see strenght.html" becomes
  "a b observations The code below see strength.html".
\<close>

theorem fix_content_example:
  "fix_content (lit ''a'' @ nbsp @ lit ''b obervations The code bellow see strenght.html'')
     = lit ''a b observations The code below see strength.html''"
  by (simp add: fix_content_unfold str_replace_def literal_defs)

text \<open>
  C3. For every document, the result contains neither the code point U+00A0 nor any of
  "obervations", "The code bellow" and "strenght.html".
\<close>

theorem fix_content_output_clean:
  "0xA0 \<notin> set (fix_content s) \<and> \<not> sublist obervations (fix_content s) \<and>
   \<not> sublist the_code_bellow (fix_content s) \<and> \<not> sublist strenght_html (fix_content s)"
  using fix_content_no_nbsp[of s] fix_content_no_obervations[of s] fix_content_no_bellow[of s]
    fix_content_no_strenght[of s]
  by (simp add: nbsp_def sublist_single)

text \<open>
  C4. The transformation is idempotent: applied to its own result it changes nothing.
\<close>

theorem fix_content_idempotent: "fix_content (fix_content s) = fix_content s"
  by (intro fix_content_id fix_content_no_nbsp fix_content_no_obervations fix_content_no_bellow
      fix_content_no_strenght)

text \<open>
  C5. A document in which none of the four search literals occurs is returned as it is.
\<close>

theorem fix_content_without_literals:
  "0xA0 \<notin> set s \<Longrightarrow> \<not> sublist obervations s \<Longrightarrow> \<not> sublist the_code_bellow s \<Longrightarrow>
   \<not> sublist strenght_html s \<Longrightarrow> fix_content s = s"
  by (intro fix_content_id) (simp_all add: nbsp_def sublist_single)

theorem fix_content_without_literals_witness:
  "0xA0 \<notin> set (lit ''no matches here'') \<and>
   \<not> sublist obervations (lit ''no matches here'') \<and>
   \<not> sublist the_code_bellow (lit ''no matches here'') \<and>
   \<not> sublist strenght_html (lit ''no matches here'') \<and>
   fix_content (lit ''no matches here'') = lit ''no matches here''"
  using fix_content_without_literals[of "lit ''no matches here''"]
  by (simp add: literal_defs sublist_code)

text \<open>
  C6. The four substitutions give the result of the script in each of the
  twelve orders that apply rule 1 (U+00A0) before rule 3 ("The code bellow").
  The two rules interact: rule 1 makes the spaces that the literal of rule 3 contains, so
  an order with rule 3 before rule 1 leaves "The code bellow" where the document has
  U+00A0 between the words, as the order 3, 1, 2, 4 does on the document below.
\<close>

theorem apply_order_nbsp_before_bellow:
  assumes "mset ks = mset [1, 2, 3, 4]" and "precedes 1 3 ks"
  shows "apply_order ks s = fix_content s"
proof -
  from assms(1) have "mset ks = add_mset 4 (mset [1, 2, 3])" by simp
  then obtain xs ys where ks: "ks = xs @ 4 # ys" and m3: "mset (xs @ ys) = mset [1, 2, 3]"
    by (rule mset_remove)
  from m3 have "set (xs @ ys) = set [1, 2, 3 :: nat]" by (rule mset_eq_setD)
  then have ys: "set ys \<subseteq> {1, 2, 3}" by auto
  have "apply_order (4 # ys) t = apply_order (ys @ [4]) t" for t
    using ys by (intro apply_order_move rule_4_commutes) auto
  then have a: "apply_order ks s = apply_rule 4 (apply_order (xs @ ys) s)"
    by (simp add: ks apply_order_append apply_order_Cons apply_order_Nil)
  from assms(2) have p3: "precedes 1 3 (xs @ ys)"
    unfolding ks by (rule precedes_remove) simp_all
  from m3 have "mset (xs @ ys) = add_mset 2 (mset [1, 3])" by simp
  then obtain us vs where zs: "xs @ ys = us @ 2 # vs" and m2: "mset (us @ vs) = mset [1, 3]"
    by (rule mset_remove)
  from p3 have "precedes 1 3 (us @ vs)"
    unfolding zs by (rule precedes_remove) simp_all
  with m2 have uv: "us @ vs = [1, 3]" by (rule order_1_3)
  then have us: "set us \<subseteq> {1, 3}" by (metis Un_upper1 set_append list.simps(15) empty_set)
  have "apply_order (2 # us) t = apply_order (us @ [2]) t" for t
    using us by (intro apply_order_move rule_2_commutes) auto
  then have "apply_order (us @ 2 # vs) s = apply_order (2 # us @ vs) s"
    using apply_order_append[of "us @ [2]" vs s] apply_order_append[of "2 # us" vs s] by simp
  then have b: "apply_order (xs @ ys) s = apply_order [2, 1, 3] s"
    by (simp add: zs uv)
  have "apply_order [2, 1, 3] s = apply_order [1, 2, 3] s"
    using commute_1_2[of s] by (simp add: apply_order_def apply_rule_def)
  with a b show ?thesis
    by (simp add: apply_order_def apply_rule_def fix_content_unfold)
qed

theorem apply_order_nbsp_before_bellow_witness:
  "apply_order [4, 2, 1, 3] (lit ''The'' @ nbsp @ lit ''code bellow obervationstrenght.html'')
   = fix_content (lit ''The'' @ nbsp @ lit ''code bellow obervationstrenght.html'')"
proof -
  have "mset [4, 2, 1, 3] = mset [1, 2, 3, 4 :: nat]" by simp
  moreover have "precedes 1 3 [4, 2, 1, 3 :: nat]" by (simp add: precedes_def)
  ultimately show ?thesis by (rule apply_order_nbsp_before_bellow)
qed

theorem apply_order_bellow_before_nbsp_differs:
  "mset [3, 1, 2, 4] = mset [1, 2, 3, 4 :: nat] \<and>
   apply_order [3, 1, 2, 4] (lit ''The'' @ nbsp @ lit ''code bellow'')
     \<noteq> fix_content (lit ''The'' @ nbsp @ lit ''code bellow'')"
  by (simp add: apply_order_def apply_rule_def fix_content_unfold str_replace_def literal_defs)

section \<open>The run of the script\<close>

text \<open>
  C7. If the file cannot be read (it does not exist or may not be read) or its content is
  not valid UTF-8, the run ends with an error and a non-zero exit status, and the world is
  as before: nothing has been written, the file has its prior content and the confirmation
  line has not been printed.
\<close>

theorem run_read_failure:
  assumes "strength_qmd w = None \<or> \<not> readable w \<or>
    (\<exists>bs. strength_qmd w = Some bs \<and> utf8_decode bs = None)"
  shows "\<exists>e. run w = (Some e, w) \<and> exit_status (Some e) \<noteq> 0"
proof (cases "open_read w")
  case (Inl e)
  then show ?thesis by (auto simp: run_read_error exit_status_def)
next
  case (Inr bs)
  with assms have "utf8_decode bs = None"
    by (auto simp: open_read_def split: option.splits if_splits)
  then have "read_text bs = Inl UnicodeDecodeError" by (simp add: read_text_def)
  with Inr show ?thesis by (auto simp: run_decode_error exit_status_def)
qed

theorem run_read_failure_witness:
  "\<exists>e. run \<lparr>strength_qmd = Some [0x61, 0xFF], readable = True, writable = True,
             capacity = None, stdout = []\<rparr>
        = (Some e, \<lparr>strength_qmd = Some [0x61, 0xFF], readable = True, writable = True,
             capacity = None, stdout = []\<rparr>) \<and> exit_status (Some e) \<noteq> 0"
  using run_read_failure[of "\<lparr>strength_qmd = Some [0x61, 0xFF], readable = True,
    writable = True, capacity = None, stdout = []\<rparr>"]
  by simp

text \<open>
  C8. For an empty file that can be read and written, the script writes an empty file back
  and prints the confirmation line.
\<close>

theorem run_empty_file:
  assumes "strength_qmd w = Some []" "readable w" "writable w"
  shows "run w = (None, w\<lparr>strength_qmd := Some [],
           stdout := stdout w @ ''File updated successfully.'' @ [newline]\<rparr>)"
proof -
  have "fix_content [] = []" by (simp add: fix_content_def str_replace_def nbsp_def
    obervations_def the_code_bellow_def strenght_html_def lit_def)
  with assms show ?thesis
    by (simp add: run_def open_read_def read_text_def open_write_def write_text_def print_def
        split: option.splits)
qed

theorem run_empty_file_witness:
  "run \<lparr>strength_qmd = Some [], readable = True, writable = True, capacity = Some 0,
        stdout = []\<rparr>
   = (None, \<lparr>strength_qmd = Some [], readable = True, writable = True, capacity = Some 0,
        stdout = ''File updated successfully.'' @ [newline]\<rparr>)"
  using run_empty_file[of "\<lparr>strength_qmd = Some [], readable = True, writable = True,
    capacity = Some 0, stdout = []\<rparr>"]
  by simp

text \<open>
  C9. A run that succeeds has added exactly one line to standard output, the text
  "File updated successfully.", whatever the content of the file, and exits with status 0.
\<close>

theorem run_success_prints_once:
  assumes "run w = (None, w')"
  shows "stdout w' = stdout w @ ''File updated successfully.'' @ [newline] \<and>
         exit_status (fst (run w)) = 0"
  using assms
  by (auto elim!: run_success_cases dest!: write_text_success open_write_success
      simp: print_def exit_status_def)

theorem run_success_prints_once_witness:
  "stdout (snd (run \<lparr>strength_qmd = Some [0x61, 0xC2, 0xA0], readable = True,
      writable = True, capacity = None, stdout = ''earlier''\<rparr>))
    = ''earlier'' @ ''File updated successfully.'' @ [newline]"
proof -
  let ?w = "\<lparr>strength_qmd = Some [0x61, 0xC2, 0xA0], readable = True,
      writable = True, capacity = None, stdout = ''earlier''\<rparr>"
  have r: "run ?w = (None, snd (run ?w))"
    by (simp add: run_def open_read_def read_text_def cont_def bits6_def
        fix_content_def str_replace_def nbsp_def space_def obervations_def
        the_code_bellow_def strenght_html_def lit_def open_write_def write_text_def
        encode_codepoint_def print_def)
  from run_success_prints_once[OF r] show ?thesis by simp
qed

end
